theory Spec2Isabelle
  imports Main
begin

section \<open>The cache reaper of the pages server (reaper.py)\<close>

text \<open>
  A shallow embedding of \<^verbatim>\<open>CacheReaper\<close>. Python strings are \<open>string\<close>; the three
  counters of a run only ever grow from zero and are natural numbers. Console output is not
  modelled. The two collaborators of the reaper (the Redis client and the HTTP session) are
  modelled at the boundary the reaper calls them through.
\<close>

subsection \<open>String operations of Python used by the reaper\<close>

text \<open>\<^verbatim>\<open>s.replace(old, new)\<close> for one-character \<open>old\<close> and \<open>new\<close>.\<close>

definition str_replace :: "char \<Rightarrow> char \<Rightarrow> string \<Rightarrow> string" where
  "str_replace old new s = map (\<lambda>c. if c = old then new else c) s"

text \<open>\<^verbatim>\<open>s.rstrip(ch)\<close> for a one-character argument.\<close>

definition rstrip :: "char \<Rightarrow> string \<Rightarrow> string" where
  "rstrip ch s = rev (dropWhile (\<lambda>c. c = ch) (rev s))"

text \<open>
  \<^verbatim>\<open>s.split(sep, 1)\<close> for a one-character separator: at most one split, at the leftmost
  occurrence of the separator; a string without the separator is returned whole, as the
  only element.
\<close>

fun split_once :: "char \<Rightarrow> string \<Rightarrow> string list" where
  "split_once sep [] = [[]]"
| "split_once sep (c # cs) =
     (if c = sep then [[], cs]
      else (case split_once sep cs of
              [] \<Rightarrow> []
            | a # rest \<Rightarrow> (c # a) # rest))"

text \<open>
  \<^verbatim>\<open>str.isalnum\<close> restricted to ASCII, for running the model on concrete input. The
  functions below take the character test as a parameter, so that what is proved of them
  holds for Python's Unicode-aware test as well.
\<close>

definition ascii_isalnum :: "char \<Rightarrow> bool" where
  "ascii_isalnum c =
     (let n = (of_char c :: nat)
      in (48 \<le> n \<and> n \<le> 57) \<or> (65 \<le> n \<and> n \<le> 90) \<or> (97 \<le> n \<and> n \<le> 122))"

subsection \<open>Parsing and key derivation\<close>

definition parse_repo_mapping :: "string \<Rightarrow> (string \<times> string) option" where
  "parse_repo_mapping val =
     (let parts = split_once CHR '':'' val
      in if length parts = 2 then Some (parts ! 0, parts ! 1) else None)"

definition sanitize_domain_name :: "(char \<Rightarrow> bool) \<Rightarrow> string \<Rightarrow> string" where
  "sanitize_domain_name isalnum domain =
     (let sanitized = str_replace CHR ''_'' CHR ''-'' (str_replace CHR ''.'' CHR ''-'' domain);
          sanitized = map (\<lambda>c. if isalnum c \<or> c = CHR ''-'' then c else CHR ''-'') sanitized
      in sanitized)"

text \<open>
  The list \<^verbatim>\<open>keys_to_delete\<close> that \<^verbatim>\<open>delete_domain_mappings\<close> builds before it
  looks at the dry-run flag: two appends, then the six router keys.
\<close>

definition keys_to_delete :: "(char \<Rightarrow> bool) \<Rightarrow> string \<Rightarrow> string \<Rightarrow> string \<Rightarrow> string list" where
  "keys_to_delete isalnum domain username repository =
     (let forward_key = ''custom_domain:'' @ domain;
          keys = [] @ [forward_key];
          reverse_key = username @ '':'' @ repository;
          keys = keys @ [reverse_key];
          sanitized_domain = sanitize_domain_name isalnum domain;
          traefik_keys =
            [''traefik/http/routers/custom-'' @ sanitized_domain @ ''/rule'',
             ''traefik/http/routers/custom-'' @ sanitized_domain @ ''/entrypoints/0'',
             ''traefik/http/routers/custom-'' @ sanitized_domain @ ''/service'',
             ''traefik/http/routers/custom-'' @ sanitized_domain @ ''/tls/certresolver'',
             ''traefik/http/routers/custom-'' @ sanitized_domain @ ''/middlewares/0'',
             ''traefik/http/routers/custom-'' @ sanitized_domain @ ''/priority'']
      in keys @ traefik_keys)"

subsection \<open>The collaborators\<close>

text \<open>
  What \<^verbatim>\<open>session.get\<close> does: it returns a response with a status code or raises
  \<^verbatim>\<open>requests.RequestException\<close> (transport failure, timeout, protocol error).
\<close>

datatype http_result = Response int | RequestException

datatype redis_error = RedisError

text \<open>
  The fields of \<^verbatim>\<open>CacheReaper\<close> the scan reads, and the behaviour of what it calls:
  the answer of the HTTP session for each URL, the keys on which the Redis \<^verbatim>\<open>DELETE\<close>
  raises \<^verbatim>\<open>redis.RedisError\<close>, and the character test \<^verbatim>\<open>str.isalnum\<close>.
\<close>

record env =
  forgejo_host :: string
  dry_run :: bool
  session_get :: "string \<Rightarrow> http_result"
  delete_raises :: "string \<Rightarrow> bool"
  str_isalnum :: "char \<Rightarrow> bool"

text \<open>The constructor strips trailing slashes off the host.\<close>

definition CacheReaper ::
  "string \<Rightarrow> bool \<Rightarrow> (string \<Rightarrow> http_result) \<Rightarrow> (string \<Rightarrow> bool) \<Rightarrow> (char \<Rightarrow> bool) \<Rightarrow> env" where
  "CacheReaper host dry http raises isalnum =
     \<lparr>forgejo_host = rstrip CHR ''/'' host, dry_run = dry, session_get = http,
      delete_raises = raises, str_isalnum = isalnum\<rparr>"

text \<open>
  The store, by the protocol the reaper consumes (\<^verbatim>\<open>SCAN\<close>, \<^verbatim>\<open>GET\<close>,
  \<^verbatim>\<open>DELETE\<close>): its contents \<open>data\<close>, and the table \<open>slots\<close> of key positions that
  a cursor walks. A deleted key leaves its slot behind, so a cursor handed out earlier stays
  valid. \<open>delete_calls\<close> and \<open>http_calls\<close> record the \<^verbatim>\<open>DELETE\<close> commands and the
  HTTP requests issued so far, in order.

  The store is reliable but for \<^verbatim>\<open>DELETE\<close>: \<^verbatim>\<open>GET\<close> always answers, and
  \<^verbatim>\<open>SCAN\<close> fails only on a page size of 0. A table may list a key twice; what is proved
  of whole runs below says where it needs a table that does not. Exceptions that the reaper
  does not catch and that end the process (an interrupt, a lost connection in the middle of
  a scan) are outside the model.
\<close>

record world =
  slots :: "string list"
  data :: "string \<rightharpoonup> string"
  delete_calls :: "string list"
  http_calls :: "string list"

text \<open>Glob matching of \<^verbatim>\<open>MATCH\<close>, for patterns of literal characters and \<open>*\<close>.\<close>

fun glob :: "string \<Rightarrow> string \<Rightarrow> bool" where
  "glob [] s = (s = [])"
| "glob (p # ps) [] = (p = CHR ''*'' \<and> glob ps [])"
| "glob (p # ps) (c # cs) =
     (if p = CHR ''*'' then glob ps (c # cs) \<or> glob (p # ps) cs
      else p = c \<and> glob ps cs)"

text \<open>
  \<^verbatim>\<open>SCAN cursor MATCH pattern COUNT count\<close>: the keys present in the next \<open>count\<close> slots
  that match the pattern, and the next cursor, which is 0 once the table is exhausted. Redis
  rejects a \<open>COUNT\<close> below 1.
\<close>

definition redis_scan :: "world \<Rightarrow> nat \<Rightarrow> string \<Rightarrow> nat \<Rightarrow> redis_error + (nat \<times> string list)" where
  "redis_scan w cursor pattern count =
     (if count = 0 then Inl RedisError
      else
        (let page = take count (drop cursor (slots w));
             keys = filter (\<lambda>k. data w k \<noteq> None \<and> glob pattern k) page;
             next = cursor + count
         in Inr (if next < length (slots w) then next else 0, keys)))"

definition redis_get :: "world \<Rightarrow> string \<Rightarrow> string option" where
  "redis_get w key = data w key"

text \<open>\<^verbatim>\<open>DELETE key\<close>: the number of keys removed, or \<^verbatim>\<open>redis.RedisError\<close>.\<close>

definition redis_delete :: "env \<Rightarrow> string \<Rightarrow> world \<Rightarrow> (redis_error + nat) \<times> world" where
  "redis_delete e key w =
     (let w' = w\<lparr>delete_calls := delete_calls w @ [key]\<rparr>
      in if delete_raises e key then (Inl RedisError, w')
         else (Inr (if data w key = None then 0 else 1), w'\<lparr>data := (data w)(key := None)\<rparr>))"

subsection \<open>The reaper\<close>

definition pages_url :: "env \<Rightarrow> string \<Rightarrow> string \<Rightarrow> string" where
  "pages_url e username repository =
     forgejo_host e @ ''/api/v1/repos/'' @ username @ ''/'' @ repository @ ''/contents/.pages''"

definition has_pages_file :: "env \<Rightarrow> string \<Rightarrow> string \<Rightarrow> world \<Rightarrow> bool \<times> world" where
  "has_pages_file e username repository w =
     (let url = pages_url e username repository;
          w' = w\<lparr>http_calls := http_calls w @ [url]\<rparr>
      in case session_get e url of
           Response status_code \<Rightarrow> (status_code = 200, w')
         | RequestException \<Rightarrow> (True, w'))"

text \<open>
  The deleting loop of \<^verbatim>\<open>delete_domain_mappings\<close>: a \<^verbatim>\<open>RedisError\<close> of one
  \<^verbatim>\<open>DELETE\<close> is caught and the loop goes on; \<open>deleted_count\<close> is what it prints.
\<close>

fun delete_loop :: "env \<Rightarrow> string list \<Rightarrow> nat \<times> world \<Rightarrow> nat \<times> world" where
  "delete_loop e [] dw = dw"
| "delete_loop e (key # keys) (deleted_count, w) =
     (case redis_delete e key w of
        (Inr n, w') \<Rightarrow> delete_loop e keys (if n > 0 then deleted_count + 1 else deleted_count, w')
      | (Inl err, w') \<Rightarrow> delete_loop e keys (deleted_count, w'))"

definition delete_domain_mappings :: "env \<Rightarrow> string \<Rightarrow> string \<Rightarrow> string \<Rightarrow> world \<Rightarrow> world" where
  "delete_domain_mappings e domain username repository w =
     (let keys = keys_to_delete (str_isalnum e) domain username repository
      in if dry_run e then w
         else snd (delete_loop e keys (0, w)))"

record counters =
  total_domains :: nat
  cleaned_domains :: nat
  error_count :: nat

text \<open>The body of \<^verbatim>\<open>for key in keys\<close>; a \<^verbatim>\<open>continue\<close> is a return of the body.\<close>

definition process_key :: "env \<Rightarrow> string \<Rightarrow> counters \<times> world \<Rightarrow> counters \<times> world" where
  "process_key e key cw =
     (let (c, w) = cw;
          c = c\<lparr>total_domains := total_domains c + 1\<rparr>;
          domain = drop (length ''custom_domain:'') key
      in case redis_get w key of
           None \<Rightarrow> (c\<lparr>error_count := error_count c + 1\<rparr>, w)
         | Some val \<Rightarrow>
             if val = [] then (c\<lparr>error_count := error_count c + 1\<rparr>, w)
             else
               (case parse_repo_mapping val of
                  None \<Rightarrow> (c\<lparr>error_count := error_count c + 1\<rparr>, w)
                | Some (username, repository) \<Rightarrow>
                    (let (has, w1) = has_pages_file e username repository w
                     in if \<not> has then
                          (c\<lparr>cleaned_domains := cleaned_domains c + 1\<rparr>,
                           delete_domain_mappings e domain username repository w1)
                        else (c, w1))))"

fun for_keys :: "env \<Rightarrow> string list \<Rightarrow> counters \<times> world \<Rightarrow> counters \<times> world" where
  "for_keys e [] cw = cw"
| "for_keys e (key # keys) cw = for_keys e keys (process_key e key cw)"

subsection \<open>The scan never touches the slot table\<close>

lemma slots_redis_delete: "slots (snd (redis_delete e k w)) = slots w"
  by (simp add: redis_delete_def Let_def)

lemma slots_delete_loop: "slots (snd (delete_loop e ks dw)) = slots (snd dw)"
proof (induction ks arbitrary: dw)
  case Nil
  show ?case by simp
next
  case (Cons k ks)
  obtain d w where dw: "dw = (d, w)" by (cases dw)
  obtain r w' where rd: "redis_delete e k w = (r, w')" by (cases "redis_delete e k w")
  have "slots w' = slots w" using slots_redis_delete [of e k w] rd by simp
  then show ?case using Cons.IH dw rd by (cases r) simp_all
qed

lemma slots_process_key: "slots (snd (process_key e k cw)) = slots (snd cw)"
  by (cases cw)
    (simp add: process_key_def has_pages_file_def delete_domain_mappings_def slots_delete_loop
      Let_def split: option.splits http_result.splits prod.splits)

lemma slots_for_keys: "slots (snd (for_keys e ks cw)) = slots (snd cw)"
  by (induction ks arbitrary: cw) (simp_all add: slots_process_key)

subsection \<open>The scan loop\<close>

text \<open>
  \<^verbatim>\<open>while True\<close>: one \<^verbatim>\<open>SCAN\<close> per round, the keys of the page processed in
  order, until the store hands back cursor 0. An error of \<^verbatim>\<open>SCAN\<close> is not caught and
  leaves the function. The page size is a parameter here; the source passes 100.
\<close>

function scan_loop :: "env \<Rightarrow> nat \<Rightarrow> nat \<Rightarrow> counters \<times> world \<Rightarrow> redis_error + (counters \<times> world)" where
  "scan_loop e count cursor cw =
     (case redis_scan (snd cw) cursor ''custom_domain:*'' count of
        Inl err \<Rightarrow> Inl err
      | Inr (cursor', keys) \<Rightarrow>
          (let cw' = for_keys e keys cw
           in if cursor' = 0 then Inr cw' else scan_loop e count cursor' cw'))"
  by pat_completeness auto
termination
proof (relation "measure (\<lambda>(e, count, cursor, cw). length (slots (snd cw)) - cursor)")
  show "wf (measure (\<lambda>(e, count, cursor, cw). length (slots (snd cw)) - cursor))" by simp
next
  fix e :: env and count cursor :: nat and cw :: "counters \<times> world"
    and x2 :: "nat \<times> string list" and x y xa
  assume a: "redis_scan (snd cw) cursor ''custom_domain:*'' count = Inr x2"
    and b: "(x, y) = x2" and c: "xa = for_keys e y cw" and d: "x \<noteq> 0"
  from a b d have "x = cursor + count \<and> 0 < count \<and> x < length (slots (snd cw))"
    by (auto simp: redis_scan_def Let_def split: if_splits)
  then show "((e, count, x, xa), (e, count, cursor, cw))
      \<in> measure (\<lambda>(e, count, cursor, cw). length (slots (snd cw)) - cursor)"
    using c by (simp add: slots_for_keys) arith
qed

declare scan_loop.simps [simp del]

definition scan_and_clean_paged ::
  "env \<Rightarrow> nat \<Rightarrow> world \<Rightarrow> redis_error + ((nat \<times> nat \<times> nat) \<times> world)" where
  "scan_and_clean_paged e count w =
     (case scan_loop e count 0
             (\<lparr>total_domains = 0, cleaned_domains = 0, error_count = 0\<rparr>, w) of
        Inl err \<Rightarrow> Inl err
      | Inr (c, w') \<Rightarrow> Inr ((total_domains c, cleaned_domains c, error_count c), w'))"

definition scan_and_clean :: "env \<Rightarrow> world \<Rightarrow> redis_error + ((nat \<times> nat \<times> nat) \<times> world)" where
  "scan_and_clean e w = scan_and_clean_paged e 100 w"

text \<open>The tuple a run returns, without the store it leaves behind.\<close>

definition summary :: "redis_error + ((nat \<times> nat \<times> nat) \<times> world) \<Rightarrow> redis_error + (nat \<times> nat \<times> nat)" where
  "summary r = (case r of Inl err \<Rightarrow> Inl err | Inr (t, w) \<Rightarrow> Inr t)"

text \<open>What a run leaves behind in the store, when it returns.\<close>

definition final_world :: "redis_error + ((nat \<times> nat \<times> nat) \<times> world) \<Rightarrow> world option" where
  "final_world r = (case r of Inl err \<Rightarrow> None | Inr (t, w) \<Rightarrow> Some w)"

subsection \<open>Stores and reapers to run the model on\<close>

text \<open>
  A store holding the given entries, one slot per entry in the order given, with no
  command issued yet.
\<close>

definition store_of :: "(string \<times> string) list \<Rightarrow> world" where
  "store_of kvs = \<lparr>slots = map fst kvs, data = map_of kvs, delete_calls = [], http_calls = []\<rparr>"

definition never_raises :: "string \<Rightarrow> bool" where
  "never_raises key = False"

text \<open>An HTTP session that gives every request the same outcome.\<close>

definition always :: "http_result \<Rightarrow> string \<Rightarrow> http_result" where
  "always r url = r"

text \<open>An HTTP session that answers 404 for one URL and 200 for every other.\<close>

definition missing_only :: "string \<Rightarrow> string \<Rightarrow> http_result" where
  "missing_only gone url = (if url = gone then Response 404 else Response 200)"

definition reaper :: "bool \<Rightarrow> (string \<Rightarrow> http_result) \<Rightarrow> env" where
  "reaper dry http = CacheReaper ''http://forgejo/'' dry http never_raises ascii_isalnum"

subsection \<open>Notions for stating and proving the properties\<close>

text \<open>
  What the HTTP session's answer means to \<^verbatim>\<open>has_pages_file\<close>; the request itself is
  recorded in the world.
\<close>

definition answers_exists :: "env \<Rightarrow> string \<Rightarrow> string \<Rightarrow> bool" where
  "answers_exists e username repository =
     (case session_get e (pages_url e username repository) of
        Response status_code \<Rightarrow> status_code = 200
      | RequestException \<Rightarrow> True)"

text \<open>
  The three ways a key can go, read off the value stored under it, and what each adds to the
  counters. That the loop body counts exactly so is proved below.
\<close>

datatype verdict = Skipped | Evicted | Retained

definition verdict :: "env \<Rightarrow> string option \<Rightarrow> verdict" where
  "verdict e stored =
     (case stored of
        None \<Rightarrow> Skipped
      | Some v \<Rightarrow>
          if v = [] then Skipped
          else (case parse_repo_mapping v of
                  None \<Rightarrow> Skipped
                | Some (u, r) \<Rightarrow> if answers_exists e u r then Retained else Evicted))"

definition tally :: "counters \<Rightarrow> verdict \<Rightarrow> counters" where
  "tally c vd =
     (case vd of
        Skipped \<Rightarrow> c\<lparr>total_domains := total_domains c + 1, error_count := error_count c + 1\<rparr>
      | Evicted \<Rightarrow> c\<lparr>total_domains := total_domains c + 1, cleaned_domains := cleaned_domains c + 1\<rparr>
      | Retained \<Rightarrow> c\<lparr>total_domains := total_domains c + 1\<rparr>)"

text \<open>The counters after the given keys, each judged by the value a fixed snapshot holds for it.\<close>

fun tally_keys :: "env \<Rightarrow> (string \<rightharpoonup> string) \<Rightarrow> counters \<Rightarrow> string list \<Rightarrow> counters" where
  "tally_keys e d c [] = c"
| "tally_keys e d c (k # ks) = tally_keys e d (tally c (verdict e (d k))) ks"

text \<open>
  The keys a scan of the untouched store returns, in table order; and whether some entry
  under such a key holds a value that itself looks like a forward key, so that the reverse
  key of that mapping lies in the keyspace being scanned.
\<close>

definition forward_keys :: "world \<Rightarrow> string list" where
  "forward_keys w = filter (\<lambda>k. data w k \<noteq> None \<and> glob ''custom_domain:*'' k) (slots w)"

definition reverse_key_clash :: "world \<Rightarrow> bool" where
  "reverse_key_clash w =
     list_ex (\<lambda>k. case data w k of None \<Rightarrow> False | Some v \<Rightarrow> glob ''custom_domain:*'' v)
       (forward_keys w)"

subsection \<open>Two more stores\<close>

text \<open>
  Owner \<open>custom_domain\<close>, repository \<open>b.test\<close>: the reverse key of the first mapping is
  the forward key of the second. The oracle reports the first repository missing.
\<close>

definition clash_store :: world where
  "clash_store =
     store_of [(''custom_domain:a.test'', ''custom_domain:b.test''),
               (''custom_domain:b.test'', ''bob:siteB'')]"

definition clash_oracle :: "string \<Rightarrow> http_result" where
  "clash_oracle = missing_only ''http://forgejo/api/v1/repos/custom_domain/b.test/contents/.pages''"

text \<open>Two mappings whose reverse keys are no forward keys.\<close>

definition two_sites :: world where
  "two_sites =
     store_of [(''custom_domain:a.test'', ''bob:siteA''), (''custom_domain:b.test'', ''carol:siteB'')]"

section \<open>The domain key codec\<close>

lemma split_once_no_sep: "sep \<notin> set s \<Longrightarrow> split_once sep s = [s]"
  by (induction s) auto

lemma split_once_at_first: "sep \<notin> set a \<Longrightarrow> split_once sep (a @ sep # b) = [a, b]"
  by (induction a) auto

lemma sanitize_char:
  "sanitize_domain_name isalnum x =
     map (\<lambda>c. if c = CHR ''.'' \<or> c = CHR ''_'' then CHR ''-''
               else if isalnum c \<or> c = CHR ''-'' then c else CHR ''-'') x"
  by (simp add: sanitize_domain_name_def str_replace_def Let_def)

text \<open>
  C4. For every domain, owner and repository, the key set computed for eviction has exactly
  8 keys in this order: the forward key \<open>custom_domain:{domain}\<close>, the reverse key
  \<open>{owner}:{repository}\<close>, then the six routing keys under
  \<open>traefik/http/routers/custom-{sanitized_domain}/\<close> (rule, entrypoints/0, service,
  tls/certresolver, middlewares/0, priority), each holding \<open>custom-\<close> followed by the
  sanitized domain; for \<open>git.example.com\<close>, \<open>alice\<close>, \<open>myrepo\<close> the routing keys hold
  \<open>custom-git-example-com\<close>.
\<close>

theorem keys_to_delete_eight:
  "keys_to_delete isalnum domain username repository =
     [''custom_domain:'' @ domain,
      username @ '':'' @ repository,
      ''traefik/http/routers/custom-'' @ sanitize_domain_name isalnum domain @ ''/rule'',
      ''traefik/http/routers/custom-'' @ sanitize_domain_name isalnum domain @ ''/entrypoints/0'',
      ''traefik/http/routers/custom-'' @ sanitize_domain_name isalnum domain @ ''/service'',
      ''traefik/http/routers/custom-'' @ sanitize_domain_name isalnum domain @ ''/tls/certresolver'',
      ''traefik/http/routers/custom-'' @ sanitize_domain_name isalnum domain @ ''/middlewares/0'',
      ''traefik/http/routers/custom-'' @ sanitize_domain_name isalnum domain @ ''/priority'']
   \<and> length (keys_to_delete isalnum domain username repository) = 8
   \<and> keys_to_delete ascii_isalnum ''git.example.com'' ''alice'' ''myrepo'' =
     [''custom_domain:git.example.com'',
      ''alice:myrepo'',
      ''traefik/http/routers/custom-git-example-com/rule'',
      ''traefik/http/routers/custom-git-example-com/entrypoints/0'',
      ''traefik/http/routers/custom-git-example-com/service'',
      ''traefik/http/routers/custom-git-example-com/tls/certresolver'',
      ''traefik/http/routers/custom-git-example-com/middlewares/0'',
      ''traefik/http/routers/custom-git-example-com/priority'']"
  by (simp add: keys_to_delete_def Let_def sanitize_char ascii_isalnum_def)

text \<open>
  C5. Sanitizing is idempotent: sanitizing a sanitized string changes nothing, whatever the
  input and whichever characters count as alphanumeric. Sanitizing replaces every \<open>.\<close>
  and \<open>_\<close> by \<open>-\<close> and then every remaining character that is neither alphanumeric nor
  \<open>-\<close> by \<open>-\<close>; no character is added or dropped.
\<close>

theorem sanitize_domain_name_idempotent:
  "sanitize_domain_name isalnum (sanitize_domain_name isalnum x) = sanitize_domain_name isalnum x
   \<and> sanitize_domain_name isalnum x =
       map (\<lambda>c. if c = CHR ''.'' \<or> c = CHR ''_'' then CHR ''-''
                 else if isalnum c \<or> c = CHR ''-'' then c else CHR ''-'') x"
  by (induction x) (simp_all add: sanitize_char)

text \<open>
  C6. \<open>parse_repo_mapping\<close> splits on the first \<open>:\<close> only. A value with a colon gives the
  text before its first colon and all the text after it; a value without a colon gives
  nothing. So \<open>a:b:c\<close> gives \<open>(a, b:c)\<close> and \<open>no-colon-here\<close> gives nothing.
\<close>

theorem parse_repo_mapping_first_colon:
  "(CHR '':'' \<notin> set a \<longrightarrow> parse_repo_mapping (a @ CHR '':'' # b) = Some (a, b))
   \<and> (CHR '':'' \<notin> set v \<longrightarrow> parse_repo_mapping v = None)
   \<and> parse_repo_mapping ''a:b:c'' = Some (''a'', ''b:c'')
   \<and> parse_repo_mapping ''no-colon-here'' = None
   \<and> parse_repo_mapping ''alice:myrepo'' = Some (''alice'', ''myrepo'')"
  by (simp add: parse_repo_mapping_def split_once_no_sep split_once_at_first)

theorem parse_repo_mapping_first_colon_witness:
  "CHR '':'' \<notin> set ''bob'' \<and> parse_repo_mapping (''bob'' @ CHR '':'' # ''site:A'') = Some (''bob'', ''site:A'')
   \<and> CHR '':'' \<notin> set ''siteA'' \<and> parse_repo_mapping ''siteA'' = None"
  using parse_repo_mapping_first_colon [of "''bob''" "''site:A''" "''siteA''"] by simp

section \<open>One key of the scan\<close>

lemma has_pages_file_eq:
  "has_pages_file e u r w =
     (answers_exists e u r, w\<lparr>http_calls := http_calls w @ [pages_url e u r]\<rparr>)"
  by (simp add: has_pages_file_def answers_exists_def Let_def split: http_result.splits)

lemma delete_loop_calls:
  "delete_calls (snd (delete_loop e ks (d, w))) = delete_calls w @ ks"
proof (induction ks arbitrary: d w)
  case Nil
  show ?case by simp
next
  case (Cons k ks)
  show ?case
    by (cases "delete_raises e k") (simp_all add: redis_delete_def Let_def Cons.IH)
qed

lemma delete_loop_http:
  "http_calls (snd (delete_loop e ks (d, w))) = http_calls w"
proof (induction ks arbitrary: d w)
  case Nil
  show ?case by simp
next
  case (Cons k ks)
  show ?case
    by (cases "delete_raises e k") (simp_all add: redis_delete_def Let_def Cons.IH)
qed

lemma delete_loop_data:
  "data (snd (delete_loop e ks (d, w))) k =
     (if k \<in> set ks \<and> \<not> delete_raises e k then None else data w k)"
proof (induction ks arbitrary: d w)
  case Nil
  show ?case by simp
next
  case (Cons a ks)
  show ?case
    by (cases "delete_raises e a") (auto simp: redis_delete_def Let_def Cons.IH)
qed

lemma delete_domain_mappings_http:
  "http_calls (delete_domain_mappings e d u r w) = http_calls w"
  by (simp add: delete_domain_mappings_def Let_def delete_loop_http)

lemma delete_domain_mappings_calls:
  "delete_calls (delete_domain_mappings e d u r w) =
     delete_calls w @ (if dry_run e then [] else keys_to_delete (str_isalnum e) d u r)"
  by (simp add: delete_domain_mappings_def Let_def delete_loop_calls)

lemma delete_domain_mappings_data:
  "data (delete_domain_mappings e d u r w) k =
     (if \<not> dry_run e \<and> k \<in> set (keys_to_delete (str_isalnum e) d u r) \<and> \<not> delete_raises e k
      then None else data w k)"
  by (simp add: delete_domain_mappings_def Let_def delete_loop_data)

lemma process_key_skip:
  "data w key = None \<or> data w key = Some [] \<or>
     (\<exists>v. data w key = Some v \<and> parse_repo_mapping v = None) \<Longrightarrow>
   process_key e key (c, w) =
     (c\<lparr>total_domains := total_domains c + 1, error_count := error_count c + 1\<rparr>, w)"
  by (auto simp: process_key_def redis_get_def Let_def)

lemma process_key_parsed:
  "data w key = Some v \<Longrightarrow> v \<noteq> [] \<Longrightarrow> parse_repo_mapping v = Some (u, r) \<Longrightarrow>
   process_key e key (c, w) =
     (if answers_exists e u r
      then (c\<lparr>total_domains := total_domains c + 1\<rparr>,
            w\<lparr>http_calls := http_calls w @ [pages_url e u r]\<rparr>)
      else (c\<lparr>total_domains := total_domains c + 1, cleaned_domains := cleaned_domains c + 1\<rparr>,
            delete_domain_mappings e (drop 14 key) u r
              (w\<lparr>http_calls := http_calls w @ [pages_url e u r]\<rparr>)))"
  by (simp add: process_key_def redis_get_def Let_def has_pages_file_eq eval_nat_numeral)

lemma reaper_fields:
  "forgejo_host (reaper dry http) = ''http://forgejo''"
  "dry_run (reaper dry http) = dry"
  "session_get (reaper dry http) = http"
  "delete_raises (reaper dry http) = never_raises"
  "str_isalnum (reaper dry http) = ascii_isalnum"
  by (simp_all add: reaper_def CacheReaper_def rstrip_def)

subsection \<open>Runs of the loop\<close>

lemma scan_loop_step:
  "redis_scan w cursor ''custom_domain:*'' count = Inr (cursor', keys) \<Longrightarrow>
   scan_loop e count cursor (c, w) =
     (if cursor' = 0 then Inr (for_keys e keys (c, w))
      else scan_loop e count cursor' (for_keys e keys (c, w)))"
  by (subst scan_loop.simps) simp

lemma redis_scan_positive:
  "0 < count \<Longrightarrow>
   redis_scan w cursor pattern count =
     Inr (if cursor + count < length (slots w) then cursor + count else 0,
          filter (\<lambda>k. data w k \<noteq> None \<and> glob pattern k) (take count (drop cursor (slots w))))"
  by (simp add: redis_scan_def Let_def)

lemma scan_loop_returns:
  "0 < count \<Longrightarrow> \<exists>cw'. scan_loop e count cursor cw = Inr cw'"
proof (induction e count cursor cw rule: scan_loop.induct)
  case (1 e count cursor cw)
  obtain c w where cw: "cw = (c, w)" by (cases cw)
  obtain cursor' keys where sc: "redis_scan w cursor ''custom_domain:*'' count = Inr (cursor', keys)"
    using "1.prems" by (simp add: redis_scan_positive)
  have sc': "redis_scan (snd cw) cursor ''custom_domain:*'' count = Inr (cursor', keys)"
    using sc cw by simp
  show ?case
  proof (cases "cursor' = 0")
    case True
    then show ?thesis by (simp add: cw scan_loop_step [OF sc])
  next
    case False
    then show ?thesis
      using "1.IH" [OF sc' refl refl False "1.prems"] by (simp add: cw scan_loop_step [OF sc])
  qed
qed

lemma run_one_page:
  "redis_scan w 0 ''custom_domain:*'' 100 = Inr (0, keys) \<Longrightarrow>
   for_keys e keys (\<lparr>total_domains = 0, cleaned_domains = 0, error_count = 0\<rparr>, w) = (c, w') \<Longrightarrow>
   scan_and_clean e w = Inr ((total_domains c, cleaned_domains c, error_count c), w')"
  by (simp add: scan_and_clean_def scan_and_clean_paged_def scan_loop_step)

lemma scan_single:
  "glob ''custom_domain:*'' k \<Longrightarrow>
   redis_scan (store_of [(k, v)]) 0 ''custom_domain:*'' 100 = Inr (0, [k])"
  by (simp add: redis_scan_def store_of_def Let_def)

lemma run_single:
  assumes "glob ''custom_domain:*'' k"
    and "process_key e k (\<lparr>total_domains = 0, cleaned_domains = 0, error_count = 0\<rparr>,
           store_of [(k, v)]) = (c, w')"
  shows "scan_and_clean e (store_of [(k, v)]) =
           Inr ((total_domains c, cleaned_domains c, error_count c), w')"
  using run_one_page [OF scan_single [OF assms(1)], of e v c w'] assms(2) by simp

subsection \<open>Keys that are skipped\<close>



subsection \<open>Keys whose value parses\<close>

text \<open>
  C10. A value that begins or ends with a colon is not rejected. Every value \<open>:r\<close> parses to
  an empty owner and the repository \<open>r\<close>; every value \<open>x:\<close> whose only colon is the last
  character parses to the owner \<open>x\<close> and an empty repository; every value that ends with a colon
  parses to some pair. In particular \<open>:r\<close> gives \<open>('', r)\<close> and \<open>x:\<close> gives \<open>(x, '')\<close> for the
  one-letter names. The empty component goes into the URL the oracle is asked for: the loop body
  requests \<open>host/api/v1/repos//r/contents/.pages\<close> for the first kind of value and
  \<open>host/api/v1/repos/x//contents/.pages\<close> for the second.
\<close>

theorem empty_component_reaches_oracle:
  "parse_repo_mapping (CHR '':'' # r) = Some ([], r)
   \<and> (CHR '':'' \<notin> set x \<longrightarrow> parse_repo_mapping (x @ '':'') = Some (x, []))
   \<and> parse_repo_mapping (v @ '':'') \<noteq> None
   \<and> parse_repo_mapping '':r'' = Some ('''', ''r'')
   \<and> parse_repo_mapping ''x:'' = Some (''x'', '''')
   \<and> (data w key = Some (CHR '':'' # r) \<longrightarrow>
        http_calls (snd (process_key e key (c, w))) =
          http_calls w @ [forgejo_host e @ ''/api/v1/repos//'' @ r @ ''/contents/.pages''])
   \<and> (CHR '':'' \<notin> set x \<and> data w key = Some (x @ '':'') \<longrightarrow>
        http_calls (snd (process_key e key (c, w))) =
          http_calls w @ [forgejo_host e @ ''/api/v1/repos/'' @ x @ ''//contents/.pages''])"
proof -
  have a: "parse_repo_mapping (CHR '':'' # r) = Some ([], r)" for r
    by (simp add: parse_repo_mapping_def)
  have b: "parse_repo_mapping (x @ '':'') = Some (x, [])" if "CHR '':'' \<notin> set x" for x
    using split_once_at_first [OF that, of "[]"] by (simp add: parse_repo_mapping_def)
  have n: "parse_repo_mapping (v @ '':'') \<noteq> None"
  proof (cases "CHR '':'' \<in> set v")
    case False
    then show ?thesis using b [of v] by simp
  next
    case True
    then obtain p q where v: "v = p @ CHR '':'' # q" and p: "CHR '':'' \<notin> set p"
      by (meson split_list_first)
    have "parse_repo_mapping (p @ CHR '':'' # (q @ '':'')) = Some (p, q @ '':'')"
      using split_once_at_first [OF p, of "q @ '':''"] by (simp add: parse_repo_mapping_def)
    then show ?thesis using v by simp
  qed
  have u1: "http_calls (snd (process_key e key (c, w))) =
          http_calls w @ [forgejo_host e @ ''/api/v1/repos//'' @ r @ ''/contents/.pages'']"
    if "data w key = Some (CHR '':'' # r)"
    using process_key_parsed [OF that _ a, of e c]
    by (simp add: delete_domain_mappings_http pages_url_def)
  have u2: "http_calls (snd (process_key e key (c, w))) =
          http_calls w @ [forgejo_host e @ ''/api/v1/repos/'' @ x @ ''//contents/.pages'']"
    if "CHR '':'' \<notin> set x" and "data w key = Some (x @ '':'')"
    using process_key_parsed [OF that(2) _ b [OF that(1)], of e c]
    by (simp add: delete_domain_mappings_http pages_url_def)
  show ?thesis using a [of r] a [of "''r''"] b [of x] b [of "''x''"] n u1 u2 by simp
qed

theorem empty_component_reaches_oracle_witness:
  "data (store_of [(''custom_domain:a.test'', '':repo'')]) ''custom_domain:a.test'' = Some (CHR '':'' # ''repo'')
   \<and> parse_repo_mapping '':repo'' = Some ('''', ''repo'')
   \<and> http_calls (snd (process_key (reaper True (always (Response 200))) ''custom_domain:a.test''
        (\<lparr>total_domains = 0, cleaned_domains = 0, error_count = 0\<rparr>,
         store_of [(''custom_domain:a.test'', '':repo'')]))) =
       [''http://forgejo/api/v1/repos//repo/contents/.pages'']
   \<and> CHR '':'' \<notin> set ''owner''
   \<and> data (store_of [(''custom_domain:a.test'', ''owner:'')]) ''custom_domain:a.test'' = Some (''owner'' @ '':'')
   \<and> parse_repo_mapping ''owner:'' = Some (''owner'', '''')
   \<and> http_calls (snd (process_key (reaper True (always (Response 200))) ''custom_domain:a.test''
        (\<lparr>total_domains = 0, cleaned_domains = 0, error_count = 0\<rparr>,
         store_of [(''custom_domain:a.test'', ''owner:'')]))) =
       [''http://forgejo/api/v1/repos/owner//contents/.pages'']"
  using empty_component_reaches_oracle [of "''repo''" "''owner''" "''''"
      "store_of [(''custom_domain:a.test'', '':repo'')]"
      "''custom_domain:a.test''" "reaper True (always (Response 200))"
      "\<lparr>total_domains = 0, cleaned_domains = 0, error_count = 0\<rparr>"]
    empty_component_reaches_oracle [of "''repo''" "''owner''" "''''"
      "store_of [(''custom_domain:a.test'', ''owner:'')]"
      "''custom_domain:a.test''" "reaper True (always (Response 200))"
      "\<lparr>total_domains = 0, cleaned_domains = 0, error_count = 0\<rparr>"]
  by (simp add: store_of_def reaper_fields)

text \<open>
  C1, as the code has it. For a key whose value parses: a response with status 200 counts as
  existence, the mapping is kept and nothing is deleted; a definitive not-found response
  (status 404) counts as nonexistence and leads to eviction (the eight keys are deleted, or
  none in a dry run); and whatever the oracle answers, the existence check does not change
  the error counter.
\<close>

theorem oracle_status_outcome:
  assumes "data w key = Some v" and "v \<noteq> []" and "parse_repo_mapping v = Some (u, r)"
  shows "(session_get e (pages_url e u r) = Response 200 \<longrightarrow>
            process_key e key (c, w) =
              (c\<lparr>total_domains := total_domains c + 1\<rparr>,
               w\<lparr>http_calls := http_calls w @ [pages_url e u r]\<rparr>))
         \<and> (session_get e (pages_url e u r) = Response 404 \<longrightarrow>
            fst (process_key e key (c, w)) =
              c\<lparr>total_domains := total_domains c + 1, cleaned_domains := cleaned_domains c + 1\<rparr>
            \<and> delete_calls (snd (process_key e key (c, w))) =
               delete_calls w @
                 (if dry_run e then [] else keys_to_delete (str_isalnum e) (drop 14 key) u r))
         \<and> error_count (fst (process_key e key (c, w))) = error_count c"
  using process_key_parsed [OF assms, of e c]
  by (simp add: answers_exists_def delete_domain_mappings_calls)

theorem oracle_status_outcome_witness:
  "data (store_of [(''custom_domain:b.test'', ''carol:siteB'')]) ''custom_domain:b.test'' = Some ''carol:siteB''
   \<and> parse_repo_mapping ''carol:siteB'' = Some (''carol'', ''siteB'')
   \<and> process_key (reaper False (always (Response 200))) ''custom_domain:b.test''
        (\<lparr>total_domains = 0, cleaned_domains = 0, error_count = 0\<rparr>,
         store_of [(''custom_domain:b.test'', ''carol:siteB'')]) =
      (\<lparr>total_domains = 1, cleaned_domains = 0, error_count = 0\<rparr>,
       (store_of [(''custom_domain:b.test'', ''carol:siteB'')])
         \<lparr>http_calls := [''http://forgejo/api/v1/repos/carol/siteB/contents/.pages'']\<rparr>)
   \<and> fst (process_key (reaper False (always (Response 404))) ''custom_domain:b.test''
        (\<lparr>total_domains = 0, cleaned_domains = 0, error_count = 0\<rparr>,
         store_of [(''custom_domain:b.test'', ''carol:siteB'')])) =
      \<lparr>total_domains = 1, cleaned_domains = 1, error_count = 0\<rparr>
   \<and> delete_calls (snd (process_key (reaper False (always (Response 404))) ''custom_domain:b.test''
        (\<lparr>total_domains = 0, cleaned_domains = 0, error_count = 0\<rparr>,
         store_of [(''custom_domain:b.test'', ''carol:siteB'')]))) =
      keys_to_delete ascii_isalnum ''b.test'' ''carol'' ''siteB''"
proof -
  have d: "data (store_of [(''custom_domain:b.test'', ''carol:siteB'')]) ''custom_domain:b.test'' = Some ''carol:siteB''"
    by (simp add: store_of_def)
  have p: "parse_repo_mapping ''carol:siteB'' = Some (''carol'', ''siteB'')"
    by (simp add: parse_repo_mapping_def)
  have n: "''carol:siteB'' \<noteq> []" by simp
  have dr: "drop 14 ''custom_domain:b.test'' = ''b.test''" by simp
  show ?thesis
    using oracle_status_outcome [OF d n p, of "reaper False (always (Response 200))"
        "\<lparr>total_domains = 0, cleaned_domains = 0, error_count = 0\<rparr>"]
      oracle_status_outcome [OF d n p, of "reaper False (always (Response 404))"
        "\<lparr>total_domains = 0, cleaned_domains = 0, error_count = 0\<rparr>"]
      d p
    unfolding dr
    by (simp add: pages_url_def reaper_fields always_def store_of_def)
qed

text \<open>
  The claim as stated fails for a response that is neither 200 nor not-found: with status 500
  the mapping is evicted, all eight deletes are issued, and the error counter stays 0.
\<close>

theorem status_500_evicts:
  "summary (scan_and_clean (reaper False (always (Response 500)))
      (store_of [(''custom_domain:b.test'', ''carol:siteB'')])) = Inr (1, 1, 0)
   \<and> map_option delete_calls (final_world (scan_and_clean (reaper False (always (Response 500)))
      (store_of [(''custom_domain:b.test'', ''carol:siteB'')]))) =
     Some [''custom_domain:b.test'', ''carol:siteB'',
           ''traefik/http/routers/custom-b-test/rule'',
           ''traefik/http/routers/custom-b-test/entrypoints/0'',
           ''traefik/http/routers/custom-b-test/service'',
           ''traefik/http/routers/custom-b-test/tls/certresolver'',
           ''traefik/http/routers/custom-b-test/middlewares/0'',
           ''traefik/http/routers/custom-b-test/priority'']"
proof -
  let ?e = "reaper False (always (Response 500))"
  let ?w = "store_of [(''custom_domain:b.test'', ''carol:siteB'')]"
  let ?c = "\<lparr>total_domains = 0, cleaned_domains = 0, error_count = 0\<rparr>"
  have d: "data ?w ''custom_domain:b.test'' = Some ''carol:siteB''"
    by (simp add: store_of_def)
  have p: "parse_repo_mapping ''carol:siteB'' = Some (''carol'', ''siteB'')"
    by (simp add: parse_repo_mapping_def)
  have n: "''carol:siteB'' \<noteq> []" by simp
  have a: "\<not> answers_exists ?e ''carol'' ''siteB''"
    by (simp add: answers_exists_def reaper_fields always_def)
  obtain c w' where pk: "process_key ?e ''custom_domain:b.test'' (?c, ?w) = (c, w')"
    by (cases "process_key ?e ''custom_domain:b.test'' (?c, ?w)")
  have c: "c = \<lparr>total_domains = 1, cleaned_domains = 1, error_count = 0\<rparr>"
    using process_key_parsed [OF d n p, of ?e ?c] a pk by simp
  have "w' = delete_domain_mappings ?e (drop 14 ''custom_domain:b.test'') ''carol'' ''siteB''
      (?w\<lparr>http_calls := http_calls ?w @ [pages_url ?e ''carol'' ''siteB'']\<rparr>)"
    using process_key_parsed [OF d n p, of ?e ?c] a pk by simp
  then have w': "delete_calls w' = keys_to_delete ascii_isalnum ''b.test'' ''carol'' ''siteB''"
    by (simp add: delete_domain_mappings_calls reaper_fields store_of_def)
  have g: "glob ''custom_domain:*'' ''custom_domain:b.test''" by simp
  have k: "keys_to_delete ascii_isalnum ''b.test'' ''carol'' ''siteB'' =
     [''custom_domain:b.test'', ''carol:siteB'',
           ''traefik/http/routers/custom-b-test/rule'',
           ''traefik/http/routers/custom-b-test/entrypoints/0'',
           ''traefik/http/routers/custom-b-test/service'',
           ''traefik/http/routers/custom-b-test/tls/certresolver'',
           ''traefik/http/routers/custom-b-test/middlewares/0'',
           ''traefik/http/routers/custom-b-test/priority'']"
    by (simp add: keys_to_delete_def Let_def sanitize_char ascii_isalnum_def)
  show ?thesis
    using run_single [OF g pk] c w' k by (simp add: summary_def final_world_def)
qed

text \<open>
  C2, as the code has it. When the request to the oracle raises (transport failure, timeout,
  protocol error), the mapping is kept: no delete is issued and the store is unchanged. The
  error counter is not changed for that mapping.
\<close>

theorem request_exception_retains:
  assumes "data w key = Some v" and "v \<noteq> []" and "parse_repo_mapping v = Some (u, r)"
    and "session_get e (pages_url e u r) = RequestException"
  shows "process_key e key (c, w) =
           (c\<lparr>total_domains := total_domains c + 1\<rparr>,
            w\<lparr>http_calls := http_calls w @ [pages_url e u r]\<rparr>)
         \<and> delete_calls (snd (process_key e key (c, w))) = delete_calls w
         \<and> data (snd (process_key e key (c, w))) = data w
         \<and> cleaned_domains (fst (process_key e key (c, w))) = cleaned_domains c
         \<and> error_count (fst (process_key e key (c, w))) = error_count c"
  using process_key_parsed [OF assms(1-3), of e c] assms(4)
  by (simp add: answers_exists_def)

theorem request_exception_retains_witness:
  "data (store_of [(''custom_domain:a.test'', ''bob:siteA'')]) ''custom_domain:a.test'' = Some ''bob:siteA''
   \<and> parse_repo_mapping ''bob:siteA'' = Some (''bob'', ''siteA'')
   \<and> session_get (reaper False (always RequestException))
        (pages_url (reaper False (always RequestException)) ''bob'' ''siteA'') = RequestException
   \<and> process_key (reaper False (always RequestException)) ''custom_domain:a.test''
        (\<lparr>total_domains = 0, cleaned_domains = 0, error_count = 0\<rparr>,
         store_of [(''custom_domain:a.test'', ''bob:siteA'')]) =
      (\<lparr>total_domains = 1, cleaned_domains = 0, error_count = 0\<rparr>,
       (store_of [(''custom_domain:a.test'', ''bob:siteA'')])
         \<lparr>http_calls := [''http://forgejo/api/v1/repos/bob/siteA/contents/.pages'']\<rparr>)"
proof -
  have d: "data (store_of [(''custom_domain:a.test'', ''bob:siteA'')]) ''custom_domain:a.test'' = Some ''bob:siteA''"
    by (simp add: store_of_def)
  have p: "parse_repo_mapping ''bob:siteA'' = Some (''bob'', ''siteA'')"
    by (simp add: parse_repo_mapping_def)
  have n: "''bob:siteA'' \<noteq> []" by simp
  have s: "session_get (reaper False (always RequestException))
        (pages_url (reaper False (always RequestException)) ''bob'' ''siteA'') = RequestException"
    by (simp add: reaper_fields always_def)
  show ?thesis
    using request_exception_retains [OF d n p s, of "\<lparr>total_domains = 0, cleaned_domains = 0, error_count = 0\<rparr>"] d p s
    by (simp add: pages_url_def reaper_fields store_of_def)
qed

text \<open>
  The claim as stated fails on the error counter: a run over one mapping whose request raises
  returns 1 seen, 0 cleaned, 0 errors.
\<close>

theorem request_exception_not_counted:
  "summary (scan_and_clean (reaper False (always RequestException))
      (store_of [(''custom_domain:a.test'', ''bob:siteA'')])) = Inr (1, 0, 0)"
proof -
  let ?e = "reaper False (always RequestException)"
  let ?w = "store_of [(''custom_domain:a.test'', ''bob:siteA'')]"
  let ?c = "\<lparr>total_domains = 0, cleaned_domains = 0, error_count = 0\<rparr>"
  have d: "data ?w ''custom_domain:a.test'' = Some ''bob:siteA''"
    by (simp add: store_of_def)
  have p: "parse_repo_mapping ''bob:siteA'' = Some (''bob'', ''siteA'')"
    by (simp add: parse_repo_mapping_def)
  have n: "''bob:siteA'' \<noteq> []" by simp
  have a: "answers_exists ?e ''bob'' ''siteA''"
    by (simp add: answers_exists_def reaper_fields always_def)
  have pk: "process_key ?e ''custom_domain:a.test'' (?c, ?w) =
      (\<lparr>total_domains = 1, cleaned_domains = 0, error_count = 0\<rparr>,
       ?w\<lparr>http_calls := http_calls ?w @ [pages_url ?e ''bob'' ''siteA'']\<rparr>)"
    using process_key_parsed [OF d n p, of ?e ?c] a by simp
  have g: "glob ''custom_domain:*'' ''custom_domain:a.test''" by simp
  show ?thesis using run_single [OF g pk] by (simp add: summary_def)
qed

section \<open>The whole scan\<close>

subsection \<open>The scan pattern\<close>

lemma glob_star: "glob ''*'' s"
  by (induction s) simp_all

lemma glob_literal:
  "CHR ''*'' \<notin> set lit \<Longrightarrow> glob (lit @ ''*'') s = (take (length lit) s = lit)"
proof (induction lit arbitrary: s)
  case Nil
  show ?case using glob_star by simp
next
  case (Cons p lit)
  then show ?case by (cases s) auto
qed

lemma glob_custom_domain:
  "glob ''custom_domain:*'' k = (take 14 k = ''custom_domain:'')"
proof -
  have star: "CHR ''*'' \<notin> set ''custom_domain:''" by simp
  have len: "length ''custom_domain:'' = 14" by simp
  have app: "''custom_domain:'' @ ''*'' = ''custom_domain:*''" by simp
  show ?thesis using glob_literal [OF star, of k] unfolding len app .
qed

lemma forward_key_of_match:
  "glob ''custom_domain:*'' k \<Longrightarrow> ''custom_domain:'' @ drop 14 k = k"
  using append_take_drop_id [of 14 k] by (simp add: glob_custom_domain)

lemma parse_repo_mapping_Some:
  "parse_repo_mapping v = Some (u, r) \<Longrightarrow> v = u @ '':'' @ r"
proof (cases "CHR '':'' \<in> set v")
  case True
  then obtain a b where v: "v = a @ CHR '':'' # b" and a: "CHR '':'' \<notin> set a"
    by (meson split_list_first)
  assume "parse_repo_mapping v = Some (u, r)"
  then show ?thesis using v a by (simp add: parse_repo_mapping_def split_once_at_first)
next
  case False
  assume "parse_repo_mapping v = Some (u, r)"
  then show ?thesis using False by (simp add: parse_repo_mapping_def split_once_no_sep)
qed

lemma routing_no_match:
  "k \<in> set (drop 2 (keys_to_delete isalnum d u r)) \<Longrightarrow> \<not> glob ''custom_domain:*'' k"
  by (auto simp: keys_to_delete_def Let_def glob_custom_domain)

subsection \<open>What one key does to the counters and to the store\<close>

lemma fst_process_key: "fst (process_key e key (c, w)) = tally c (verdict e (data w key))"
proof (cases "data w key")
  case None
  then show ?thesis using process_key_skip [of w key e c] by (simp add: verdict_def tally_def)
next
  case (Some v)
  show ?thesis
  proof (cases "v = [] \<or> parse_repo_mapping v = None")
    case True
    then show ?thesis using Some process_key_skip [of w key e c]
      by (auto simp: verdict_def tally_def)
  next
    case False
    then obtain u r where p: "parse_repo_mapping v = Some (u, r)" and v: "v \<noteq> []" by auto
    show ?thesis using process_key_parsed [OF Some v p, of e c] v p Some
      by (simp add: verdict_def tally_def)
  qed
qed

lemma answers_exists_dry_run: "answers_exists (e\<lparr>dry_run := b\<rparr>) u r = answers_exists e u r"
  by (simp add: answers_exists_def pages_url_def)

lemma verdict_dry_run: "verdict (e\<lparr>dry_run := b\<rparr>) stored = verdict e stored"
  by (simp add: verdict_def answers_exists_dry_run split: option.splits)

lemma process_key_data_changed:
  assumes "data (snd (process_key e key (c, w))) k \<noteq> data w k"
  shows "\<not> dry_run e \<and>
         (\<exists>v u r. data w key = Some v \<and> parse_repo_mapping v = Some (u, r) \<and>
            k \<in> set (keys_to_delete (str_isalnum e) (drop 14 key) u r))"
proof (cases "data w key")
  case None
  then show ?thesis using assms process_key_skip [of w key e c] by simp
next
  case (Some v)
  show ?thesis
  proof (cases "v = [] \<or> parse_repo_mapping v = None")
    case True
    then show ?thesis using assms Some process_key_skip [of w key e c] by auto
  next
    case False
    then obtain u r where p: "parse_repo_mapping v = Some (u, r)" and v: "v \<noteq> []" by auto
    show ?thesis using assms process_key_parsed [OF Some v p, of e c] Some p
      by (auto simp: delete_domain_mappings_data split: if_splits)
  qed
qed

lemma matching_deleted_key:
  assumes "glob ''custom_domain:*'' key" and "parse_repo_mapping v = Some (u, r)"
    and "k \<in> set (keys_to_delete isalnum (drop 14 key) u r)" and "glob ''custom_domain:*'' k"
  shows "k = key \<or> k = v"
proof -
  have "keys_to_delete isalnum (drop 14 key) u r =
          (''custom_domain:'' @ drop 14 key) # (u @ '':'' @ r) #
            drop 2 (keys_to_delete isalnum (drop 14 key) u r)"
    by (simp add: keys_to_delete_def Let_def)
  then have "k = ''custom_domain:'' @ drop 14 key \<or> k = u @ '':'' @ r
      \<or> k \<in> set (drop 2 (keys_to_delete isalnum (drop 14 key) u r))"
    using assms(3) by (metis set_ConsD)
  then show ?thesis
    using routing_no_match [of k isalnum "drop 14 key" u r] assms(4)
      forward_key_of_match [OF assms(1)] parse_repo_mapping_Some [OF assms(2)] by auto
qed

lemma process_key_frame:
  assumes "glob ''custom_domain:*'' key"
    and "dry_run e \<or> (\<forall>v. data w key = Some v \<longrightarrow> \<not> glob ''custom_domain:*'' v)"
    and "glob ''custom_domain:*'' k" and "k \<noteq> key"
  shows "data (snd (process_key e key (c, w))) k = data w k"
proof (rule ccontr)
  assume "data (snd (process_key e key (c, w))) k \<noteq> data w k"
  from process_key_data_changed [OF this] obtain v u r where
    n: "\<not> dry_run e" and v: "data w key = Some v" and p: "parse_repo_mapping v = Some (u, r)"
    and k: "k \<in> set (keys_to_delete (str_isalnum e) (drop 14 key) u r)" by blast
  from matching_deleted_key [OF assms(1) p k assms(3)] assms(4) have "k = v" by simp
  then show False using assms(2,3) n v by simp
qed

lemma tally_keys_append:
  "tally_keys e d c (xs @ ys) = tally_keys e d (tally_keys e d c xs) ys"
  by (induction xs arbitrary: c) simp_all

lemma tally_keys_cong:
  "(\<And>k. k \<in> set ks \<Longrightarrow> d k = d' k) \<Longrightarrow> tally_keys e d c ks = tally_keys e d' c ks"
  by (induction ks arbitrary: c) simp_all

lemma tally_keys_dry_run: "tally_keys (e\<lparr>dry_run := b\<rparr>) d c ks = tally_keys e d c ks"
  by (induction ks arbitrary: c) (simp_all add: verdict_dry_run)

lemma total_tally: "total_domains (tally c vd) = total_domains c + 1"
  by (cases vd) (simp_all add: tally_def)

lemma total_tally_keys: "total_domains (tally_keys e d c ks) = total_domains c + length ks"
  by (induction ks arbitrary: c) (simp_all add: total_tally)

lemma for_keys_snapshot:
  assumes "distinct keys" and "\<forall>k\<in>set keys. glob ''custom_domain:*'' k"
    and "dry_run e \<or> (\<forall>k\<in>set keys. \<forall>v. data w k = Some v \<longrightarrow> \<not> glob ''custom_domain:*'' v)"
  shows "fst (for_keys e keys (c, w)) = tally_keys e (data w) c keys
         \<and> (\<forall>k. glob ''custom_domain:*'' k \<and> k \<notin> set keys \<longrightarrow>
               data (snd (for_keys e keys (c, w))) k = data w k)"
  using assms
proof (induction keys arbitrary: c w)
  case Nil
  show ?case by simp
next
  case (Cons key keys)
  obtain c1 w1 where pk: "process_key e key (c, w) = (c1, w1)" by (cases "process_key e key (c, w)")
  have c1: "c1 = tally c (verdict e (data w key))"
    using fst_process_key [of e key c w] pk by simp
  have gk: "glob ''custom_domain:*'' key" using Cons.prems(2) by simp
  have plain: "dry_run e \<or> (\<forall>v. data w key = Some v \<longrightarrow> \<not> glob ''custom_domain:*'' v)"
    using Cons.prems(3) by auto
  have frame: "data w1 k = data w k" if "glob ''custom_domain:*'' k" and "k \<noteq> key" for k
    using process_key_frame [OF gk plain that, of c] pk by simp
  have same: "data w1 k = data w k" if "k \<in> set keys" for k
    using frame [of k] that Cons.prems(1,2) by auto
  have d: "distinct keys" and g: "\<forall>k\<in>set keys. glob ''custom_domain:*'' k"
    using Cons.prems(1,2) by simp_all
  have p: "dry_run e \<or> (\<forall>k\<in>set keys. \<forall>v. data w1 k = Some v \<longrightarrow> \<not> glob ''custom_domain:*'' v)"
    using Cons.prems(3) same by auto
  note ih = Cons.IH [OF d g p, of c1]
  have "fst (for_keys e (key # keys) (c, w)) = tally_keys e (data w1) c1 keys"
    using ih pk by simp
  also have "\<dots> = tally_keys e (data w) c1 keys"
    using same by (rule tally_keys_cong)
  finally have counters: "fst (for_keys e (key # keys) (c, w)) = tally_keys e (data w) c (key # keys)"
    using c1 by simp
  have "data (snd (for_keys e (key # keys) (c, w))) k = data w k"
    if "glob ''custom_domain:*'' k" and "k \<notin> set (key # keys)" for k
  proof -
    have "data (snd (for_keys e keys (c1, w1))) k = data w1 k" using ih that by simp
    then show ?thesis using frame [of k] that pk by simp
  qed
  with counters show ?case by blast
qed

subsection \<open>A run counts the store as it was when the scan began\<close>

lemma drop_page_split: "drop cursor xs = take count (drop cursor xs) @ drop (cursor + count) xs"
  by (metis add.commute append_take_drop_id drop_drop)

lemma scan_loop_snapshot:
  "0 < count \<Longrightarrow> distinct (slots w0) \<Longrightarrow>
   dry_run e \<or>
     (\<forall>k\<in>set (slots w0). \<forall>v. glob ''custom_domain:*'' k \<and> data w0 k = Some v \<longrightarrow>
        \<not> glob ''custom_domain:*'' v) \<Longrightarrow>
   slots (snd cw) = slots w0 \<Longrightarrow>
   (\<forall>k\<in>set (drop cursor (slots w0)). glob ''custom_domain:*'' k \<longrightarrow> data (snd cw) k = data w0 k) \<Longrightarrow>
   \<exists>w'. scan_loop e count cursor cw =
     Inr (tally_keys e (data w0) (fst cw)
            (filter (\<lambda>k. data w0 k \<noteq> None \<and> glob ''custom_domain:*'' k) (drop cursor (slots w0))),
          w')"
proof (induction e count cursor cw rule: scan_loop.induct)
  case (1 e count cursor cw)
  note pos = "1.prems"(1) and dis = "1.prems"(2) and pl = "1.prems"(3)
  obtain c w where cw: "cw = (c, w)" by (cases cw)
  let ?pat = "''custom_domain:*''"
  let ?P = "\<lambda>k. data w0 k \<noteq> None \<and> glob ?pat k"
  let ?page = "take count (drop cursor (slots w0))"
  let ?rest = "drop (cursor + count) (slots w0)"
  let ?keys = "filter ?P ?page"
  let ?next = "if cursor + count < length (slots w0) then cursor + count else 0"
  have sl: "slots w = slots w0" using "1.prems"(4) cw by simp
  have agree: "data w k = data w0 k" if "k \<in> set (drop cursor (slots w0))" and "glob ?pat k" for k
    using "1.prems"(5) cw that by simp
  have page_sub: "set ?page \<subseteq> set (drop cursor (slots w0))" by (rule set_take_subset)
  have keys_eq: "filter (\<lambda>k. data w k \<noteq> None \<and> glob ?pat k) ?page = ?keys"
    by (rule filter_cong [OF refl]) (use agree page_sub in auto)
  have "redis_scan w cursor ?pat count =
      Inr (if cursor + count < length (slots w) then cursor + count else 0,
           filter (\<lambda>k. data w k \<noteq> None \<and> glob ?pat k) (take count (drop cursor (slots w))))"
    by (rule redis_scan_positive [OF pos])
  then have sc: "redis_scan w cursor ?pat count = Inr (?next, ?keys)"
    unfolding sl keys_eq .
  have split: "drop cursor (slots w0) = ?page @ ?rest" by (rule drop_page_split)
  have dist: "distinct (?page @ ?rest)" using dis split by (metis distinct_drop)
  have dk: "distinct ?keys" using dist by simp
  have gk: "\<forall>k\<in>set ?keys. glob ?pat k" by simp
  have in_slots: "set ?page \<subseteq> set (slots w0)"
    using page_sub set_drop_subset [of cursor "slots w0"] by blast
  have plain: "dry_run e \<or> (\<forall>k\<in>set ?keys. \<forall>v. data w k = Some v \<longrightarrow> \<not> glob ?pat v)"
  proof (cases "dry_run e")
    case True
    then show ?thesis by simp
  next
    case False
    have "\<not> glob ?pat v" if "k \<in> set ?keys" and "data w k = Some v" for k v
    proof -
      have k: "k \<in> set ?page" and g: "glob ?pat k" using that(1) by simp_all
      have "data w0 k = Some v" using agree [of k] k g page_sub that(2) by auto
      then show ?thesis using pl False k g in_slots by blast
    qed
    then show ?thesis by blast
  qed
  note snap = for_keys_snapshot [OF dk gk plain, of c]
  obtain c1 w1 where fk: "for_keys e ?keys (c, w) = (c1, w1)" by (cases "for_keys e ?keys (c, w)")
  have c1: "c1 = tally_keys e (data w0) c ?keys"
  proof -
    have "c1 = tally_keys e (data w) c ?keys" using snap fk by simp
    also have "\<dots> = tally_keys e (data w0) c ?keys"
      by (rule tally_keys_cong) (use agree page_sub in auto)
    finally show ?thesis .
  qed
  have total: "tally_keys e (data w0) c (filter ?P (drop cursor (slots w0))) =
      tally_keys e (data w0) c1 (filter ?P ?rest)"
    by (subst split) (simp add: tally_keys_append c1)
  show ?case
  proof (cases "cursor + count < length (slots w0)")
    case False
    then have "?rest = []" by simp
    then have "tally_keys e (data w0) c (filter ?P (drop cursor (slots w0))) = c1"
      using total by simp
    then show ?thesis using False fk by (simp add: cw scan_loop_step [OF sc])
  next
    case True
    have nz: "?next \<noteq> 0" using True pos by simp
    have sc': "redis_scan (snd cw) cursor ?pat count = Inr (?next, ?keys)" using sc cw by simp
    have sl1: "slots (snd (for_keys e ?keys cw)) = slots w0"
      using slots_for_keys [of e ?keys cw] sl cw by simp
    have frame: "\<forall>k\<in>set (drop ?next (slots w0)). glob ?pat k \<longrightarrow>
        data (snd (for_keys e ?keys cw)) k = data w0 k"
    proof (intro ballI impI)
      fix k assume k: "k \<in> set (drop ?next (slots w0))" and g: "glob ?pat k"
      have kr: "k \<in> set ?rest" using k True by simp
      then have "k \<notin> set ?page" using dist by auto
      then have "k \<notin> set ?keys" by simp
      then have "data (snd (for_keys e ?keys (c, w))) k = data w k" using snap g by simp
      moreover have "k \<in> set (drop cursor (slots w0))" using kr split by (metis Un_iff set_append)
      ultimately show "data (snd (for_keys e ?keys cw)) k = data w0 k"
        using agree [of k] g cw by simp
    qed
    from "1.IH" [OF sc' refl refl nz pos dis pl sl1 frame]
    obtain w' where "scan_loop e count ?next (for_keys e ?keys cw) =
        Inr (tally_keys e (data w0) (fst (for_keys e ?keys cw))
               (filter ?P (drop ?next (slots w0))), w')" by blast
    then have "scan_loop e count cursor cw =
        Inr (tally_keys e (data w0) c1 (filter ?P ?rest), w')"
      using True fk nz pos by (simp add: cw scan_loop_step [OF sc])
    then show ?thesis using total cw by simp
  qed
qed

subsection \<open>The counters\<close>

lemma tally_step:
  "total_domains (tally c vd) = total_domains c + 1
   \<and> (cleaned_domains (tally c vd) = cleaned_domains c
        \<and> (error_count (tally c vd) = error_count c \<or> error_count (tally c vd) = error_count c + 1)
      \<or> cleaned_domains (tally c vd) = cleaned_domains c + 1
        \<and> error_count (tally c vd) = error_count c)"
  by (cases vd) (simp_all add: tally_def)

lemma process_key_bound:
  "cleaned_domains c + error_count c \<le> total_domains c \<Longrightarrow>
   cleaned_domains (fst (process_key e key (c, w))) + error_count (fst (process_key e key (c, w)))
     \<le> total_domains (fst (process_key e key (c, w)))"
  using tally_step [of c "verdict e (data w key)"] by (auto simp: fst_process_key)

lemma for_keys_bound:
  "cleaned_domains (fst cw) + error_count (fst cw) \<le> total_domains (fst cw) \<Longrightarrow>
   cleaned_domains (fst (for_keys e keys cw)) + error_count (fst (for_keys e keys cw))
     \<le> total_domains (fst (for_keys e keys cw))"
proof (induction keys arbitrary: cw)
  case Nil
  then show ?case by simp
next
  case (Cons key keys)
  obtain c w where cw: "cw = (c, w)" by (cases cw)
  have "cleaned_domains (fst (process_key e key cw)) + error_count (fst (process_key e key cw))
     \<le> total_domains (fst (process_key e key cw))"
    using process_key_bound [of c e key w] Cons.prems cw by simp
  from Cons.IH [OF this] show ?case by simp
qed

lemma scan_loop_bound:
  "cleaned_domains (fst cw) + error_count (fst cw) \<le> total_domains (fst cw) \<Longrightarrow>
   scan_loop e count cursor cw = Inr cw' \<Longrightarrow>
   cleaned_domains (fst cw') + error_count (fst cw') \<le> total_domains (fst cw')"
proof (induction e count cursor cw rule: scan_loop.induct)
  case (1 e count cursor cw)
  obtain c w where cw: "cw = (c, w)" by (cases cw)
  show ?case
  proof (cases "redis_scan w cursor ''custom_domain:*'' count")
    case (Inl err)
    then show ?thesis using "1.prems"(2) cw by (subst (asm) scan_loop.simps) simp
  next
    case (Inr page)
    obtain cursor' keys where page: "page = (cursor', keys)" by (cases page)
    have sc: "redis_scan w cursor ''custom_domain:*'' count = Inr (cursor', keys)"
      using Inr page by simp
    have sc': "redis_scan (snd cw) cursor ''custom_domain:*'' count = Inr (cursor', keys)"
      using sc cw by simp
    have ok: "cleaned_domains (fst (for_keys e keys cw)) + error_count (fst (for_keys e keys cw))
        \<le> total_domains (fst (for_keys e keys cw))"
      using for_keys_bound [OF "1.prems"(1)] .
    show ?thesis
    proof (cases "cursor' = 0")
      case True
      then have "cw' = for_keys e keys cw"
        using "1.prems"(2) cw scan_loop_step [OF sc, of e c] by simp
      then show ?thesis using ok by simp
    next
      case False
      then have "scan_loop e count cursor' (for_keys e keys cw) = Inr cw'"
        using "1.prems"(2) cw scan_loop_step [OF sc, of e c] by simp
      from "1.IH" [OF sc' refl refl False ok this] show ?thesis .
    qed
  qed
qed

text \<open>
  C9. Every scanned key adds 1 to the keys seen and at most 1 to one of the two other
  counters, never to both. So cleaned + errors never exceeds the keys seen: after each key,
  after each page, at every round of the loop, and in the tuple a run returns.
\<close>

theorem counters_bounded_by_seen:
  "total_domains (fst (process_key e key (c, w))) = total_domains c + 1
   \<and> (cleaned_domains (fst (process_key e key (c, w))) = cleaned_domains c
        \<and> (error_count (fst (process_key e key (c, w))) = error_count c
           \<or> error_count (fst (process_key e key (c, w))) = error_count c + 1)
      \<or> cleaned_domains (fst (process_key e key (c, w))) = cleaned_domains c + 1
        \<and> error_count (fst (process_key e key (c, w))) = error_count c)
   \<and> (cleaned_domains c + error_count c \<le> total_domains c \<longrightarrow>
        cleaned_domains (fst (for_keys e keys (c, w))) + error_count (fst (for_keys e keys (c, w)))
          \<le> total_domains (fst (for_keys e keys (c, w))))
   \<and> (cleaned_domains c + error_count c \<le> total_domains c \<longrightarrow>
        scan_loop e count cursor (c, w) = Inr (c', w') \<longrightarrow>
        cleaned_domains c' + error_count c' \<le> total_domains c')
   \<and> (scan_and_clean_paged e count w = Inr ((seen, cleaned, errors), w'') \<longrightarrow>
        cleaned + errors \<le> seen)"
proof -
  have a: "total_domains (fst (process_key e key (c, w))) = total_domains c + 1
   \<and> (cleaned_domains (fst (process_key e key (c, w))) = cleaned_domains c
        \<and> (error_count (fst (process_key e key (c, w))) = error_count c
           \<or> error_count (fst (process_key e key (c, w))) = error_count c + 1)
      \<or> cleaned_domains (fst (process_key e key (c, w))) = cleaned_domains c + 1
        \<and> error_count (fst (process_key e key (c, w))) = error_count c)"
    using tally_step [of c "verdict e (data w key)"] by (simp only: fst_process_key)
  have b: "cleaned_domains (fst (for_keys e keys (c, w))) + error_count (fst (for_keys e keys (c, w)))
          \<le> total_domains (fst (for_keys e keys (c, w)))"
    if "cleaned_domains c + error_count c \<le> total_domains c"
    using for_keys_bound [of "(c, w)" e keys] that by simp
  have d: "cleaned_domains c' + error_count c' \<le> total_domains c'"
    if "cleaned_domains c + error_count c \<le> total_domains c"
      and "scan_loop e count cursor (c, w) = Inr (c', w')"
    using scan_loop_bound [of "(c, w)" e count cursor "(c', w')"] that by simp
  have f: "cleaned + errors \<le> seen"
    if r: "scan_and_clean_paged e count w = Inr ((seen, cleaned, errors), w'')"
  proof -
    let ?z = "\<lparr>total_domains = 0, cleaned_domains = 0, error_count = 0\<rparr>"
    obtain cz where l: "scan_loop e count 0 (?z, w) = Inr (cz, w'')"
      and t: "seen = total_domains cz" "cleaned = cleaned_domains cz" "errors = error_count cz"
      using r by (auto simp: scan_and_clean_paged_def split: sum.splits)
    have "cleaned_domains cz + error_count cz \<le> total_domains cz"
      using scan_loop_bound [of "(?z, w)" e count 0 "(cz, w'')"] l by simp
    then show ?thesis using t by simp
  qed
  from a b d f show ?thesis by blast
qed

lemma empty_value_loop:
  "scan_loop e 100 0 (\<lparr>total_domains = 0, cleaned_domains = 0, error_count = 0\<rparr>,
       store_of [(''custom_domain:e.test'', '''')]) =
     Inr (\<lparr>total_domains = 1, cleaned_domains = 0, error_count = 1\<rparr>,
          store_of [(''custom_domain:e.test'', '''')])"
proof -
  let ?w = "store_of [(''custom_domain:e.test'', '''')]"
  have g: "glob ''custom_domain:*'' ''custom_domain:e.test''" by simp
  have d: "data ?w ''custom_domain:e.test'' = Some []" by (simp add: store_of_def)
  have sc: "redis_scan ?w 0 ''custom_domain:*'' 100 = Inr (0, [''custom_domain:e.test''])"
    by (rule scan_single [OF g])
  have pk: "process_key e ''custom_domain:e.test''
      (\<lparr>total_domains = 0, cleaned_domains = 0, error_count = 0\<rparr>, ?w) =
      (\<lparr>total_domains = 1, cleaned_domains = 0, error_count = 1\<rparr>, ?w)"
    using process_key_skip [of ?w "''custom_domain:e.test''" e
        "\<lparr>total_domains = 0, cleaned_domains = 0, error_count = 0\<rparr>"] d
    by simp
  show ?thesis by (simp add: scan_loop_step [OF sc] pk)
qed

theorem counters_bounded_by_seen_witness:
  "total_domains (fst (process_key (reaper False (always (Response 404))) ''custom_domain:e.test''
        (\<lparr>total_domains = 0, cleaned_domains = 0, error_count = 0\<rparr>,
         store_of [(''custom_domain:e.test'', '''')]))) = 1
   \<and> scan_loop (reaper False (always (Response 404))) 100 0
        (\<lparr>total_domains = 0, cleaned_domains = 0, error_count = 0\<rparr>,
         store_of [(''custom_domain:e.test'', '''')]) =
      Inr (\<lparr>total_domains = 1, cleaned_domains = 0, error_count = 1\<rparr>,
           store_of [(''custom_domain:e.test'', '''')])
   \<and> scan_and_clean_paged (reaper False (always (Response 404))) 100
        (store_of [(''custom_domain:e.test'', '''')]) =
      Inr ((1, 0, 1), store_of [(''custom_domain:e.test'', '''')])
   \<and> (0::nat) + 1 \<le> 1"
proof -
  let ?e = "reaper False (always (Response 404))"
  let ?w = "store_of [(''custom_domain:e.test'', '''')]"
  let ?z = "\<lparr>total_domains = 0, cleaned_domains = 0, error_count = 0\<rparr>"
  let ?c = "\<lparr>total_domains = 1, cleaned_domains = 0, error_count = 1\<rparr>"
  have l: "scan_loop ?e 100 0 (?z, ?w) = Inr (?c, ?w)" by (rule empty_value_loop)
  then have r: "scan_and_clean_paged ?e 100 ?w = Inr ((1, 0, 1), ?w)"
    by (simp add: scan_and_clean_paged_def)
  from counters_bounded_by_seen [of ?e "''custom_domain:e.test''" ?z ?w "[''custom_domain:e.test'']" 100 0 ?c ?w 1 0 1 ?w] l r
  show ?thesis by simp
qed

subsection \<open>Dry run and page size\<close>

lemma no_clash_plain:
  assumes "\<not> reverse_key_clash w"
  shows "\<forall>k\<in>set (slots w). \<forall>v. glob ''custom_domain:*'' k \<and> data w k = Some v \<longrightarrow>
           \<not> glob ''custom_domain:*'' v"
proof (intro ballI allI impI)
  fix k v assume k: "k \<in> set (slots w)" and h: "glob ''custom_domain:*'' k \<and> data w k = Some v"
  then have "k \<in> set (forward_keys w)" by (simp add: forward_keys_def)
  then show "\<not> glob ''custom_domain:*'' v"
    using assms h by (auto simp: reverse_key_clash_def list_ex_iff)
qed

lemma scan_and_clean_paged_snapshot:
  assumes "0 < count" and "distinct (slots w)" and "dry_run e \<or> \<not> reverse_key_clash w"
  shows "\<exists>w'. scan_and_clean_paged e count w =
           Inr ((total_domains (tally_keys e (data w) \<lparr>total_domains = 0, cleaned_domains = 0, error_count = 0\<rparr> (forward_keys w)),
                 cleaned_domains (tally_keys e (data w) \<lparr>total_domains = 0, cleaned_domains = 0, error_count = 0\<rparr> (forward_keys w)),
                 error_count (tally_keys e (data w) \<lparr>total_domains = 0, cleaned_domains = 0, error_count = 0\<rparr> (forward_keys w))), w')"
proof -
  let ?z = "\<lparr>total_domains = 0, cleaned_domains = 0, error_count = 0\<rparr>"
  have pl: "dry_run e \<or>
     (\<forall>k\<in>set (slots w). \<forall>v. glob ''custom_domain:*'' k \<and> data w k = Some v \<longrightarrow>
        \<not> glob ''custom_domain:*'' v)"
    using assms(3) no_clash_plain [of w] by blast
  have "\<exists>w'. scan_loop e count 0 (?z, w) =
     Inr (tally_keys e (data w) (fst (?z, w))
            (filter (\<lambda>k. data w k \<noteq> None \<and> glob ''custom_domain:*'' k) (drop 0 (slots w))),
          w')"
    by (rule scan_loop_snapshot [OF assms(1,2) pl]) simp_all
  then obtain w' where "scan_loop e count 0 (?z, w) = Inr (tally_keys e (data w) ?z (forward_keys w), w')"
    by (auto simp: forward_keys_def)
  then show ?thesis by (simp add: scan_and_clean_paged_def)
qed

lemma dry_process_key:
  "dry_run e \<Longrightarrow> delete_calls (snd (process_key e key (c, w))) = delete_calls w
     \<and> data (snd (process_key e key (c, w))) = data w"
  by (simp add: process_key_def redis_get_def has_pages_file_eq delete_domain_mappings_def Let_def
      split: option.splits)

lemma dry_for_keys:
  "dry_run e \<Longrightarrow> delete_calls (snd (for_keys e keys cw)) = delete_calls (snd cw)
     \<and> data (snd (for_keys e keys cw)) = data (snd cw)"
proof (induction keys arbitrary: cw)
  case Nil
  show ?case by simp
next
  case (Cons key keys)
  obtain c w where cw: "cw = (c, w)" by (cases cw)
  show ?case using Cons.IH [OF Cons.prems, of "process_key e key cw"]
      dry_process_key [OF Cons.prems, of key c w] cw by simp
qed

lemma dry_scan_loop:
  "dry_run e \<Longrightarrow> scan_loop e count cursor cw = Inr cw' \<Longrightarrow>
   delete_calls (snd cw') = delete_calls (snd cw) \<and> data (snd cw') = data (snd cw)"
proof (induction e count cursor cw rule: scan_loop.induct)
  case (1 e count cursor cw)
  obtain c w where cw: "cw = (c, w)" by (cases cw)
  show ?case
  proof (cases "redis_scan w cursor ''custom_domain:*'' count")
    case (Inl err)
    then show ?thesis using "1.prems"(2) cw by (subst (asm) scan_loop.simps) simp
  next
    case (Inr page)
    obtain cursor' keys where page: "page = (cursor', keys)" by (cases page)
    have sc: "redis_scan w cursor ''custom_domain:*'' count = Inr (cursor', keys)"
      using Inr page by simp
    have sc': "redis_scan (snd cw) cursor ''custom_domain:*'' count = Inr (cursor', keys)"
      using sc cw by simp
    note fk = dry_for_keys [OF "1.prems"(1), of keys cw]
    show ?thesis
    proof (cases "cursor' = 0")
      case True
      then have "cw' = for_keys e keys cw"
        using "1.prems"(2) cw scan_loop_step [OF sc, of e c] by simp
      then show ?thesis using fk by simp
    next
      case False
      then have "scan_loop e count cursor' (for_keys e keys cw) = Inr cw'"
        using "1.prems"(2) cw scan_loop_step [OF sc, of e c] by simp
      from "1.IH" [OF sc' refl refl False "1.prems"(1) this] show ?thesis using fk by simp
    qed
  qed
qed

lemma scan_zero_count: "scan_and_clean_paged e 0 w = Inl RedisError"
  by (simp add: scan_and_clean_paged_def scan_loop.simps redis_scan_def)

text \<open>
  C3, as the code has it. A dry run issues no delete and leaves the contents of the store as
  they were, for every store and oracle. It returns the same tuple as a normal run on every
  store (no key listed twice in its table) in which no forward entry's value begins with
  \<open>custom_domain:\<close>, so that no reverse key deleted by an eviction is a forward key.
\<close>

theorem dry_run_same_summary:
  "(distinct (slots w) \<and> \<not> reverse_key_clash w \<longrightarrow>
      summary (scan_and_clean_paged (e\<lparr>dry_run := True\<rparr>) count w) =
      summary (scan_and_clean_paged (e\<lparr>dry_run := False\<rparr>) count w))
   \<and> (distinct (slots w) \<and> \<not> reverse_key_clash w \<longrightarrow>
      summary (scan_and_clean (e\<lparr>dry_run := True\<rparr>) w) =
      summary (scan_and_clean (e\<lparr>dry_run := False\<rparr>) w))
   \<and> (final_world (scan_and_clean_paged (e\<lparr>dry_run := True\<rparr>) count w) = Some w' \<longrightarrow>
      delete_calls w' = delete_calls w \<and> data w' = data w)"
proof -
  have same: "summary (scan_and_clean_paged (e\<lparr>dry_run := True\<rparr>) n w) =
      summary (scan_and_clean_paged (e\<lparr>dry_run := False\<rparr>) n w)"
    if d: "distinct (slots w)" and nc: "\<not> reverse_key_clash w" for n
  proof (cases "n = 0")
    case True
    then show ?thesis by (simp add: scan_zero_count)
  next
    case False
    then have pos: "0 < n" by simp
    from scan_and_clean_paged_snapshot [OF pos d, of "e\<lparr>dry_run := True\<rparr>"]
      scan_and_clean_paged_snapshot [OF pos d, of "e\<lparr>dry_run := False\<rparr>"] nc
    show ?thesis by (auto simp: summary_def tally_keys_dry_run)
  qed
  have untouched: "delete_calls w' = delete_calls w \<and> data w' = data w"
    if f: "final_world (scan_and_clean_paged (e\<lparr>dry_run := True\<rparr>) count w) = Some w'"
  proof -
    let ?z = "\<lparr>total_domains = 0, cleaned_domains = 0, error_count = 0\<rparr>"
    obtain cz where "scan_loop (e\<lparr>dry_run := True\<rparr>) count 0 (?z, w) = Inr (cz, w')"
      using f by (auto simp: final_world_def scan_and_clean_paged_def split: sum.splits)
    from dry_scan_loop [OF _ this] show ?thesis by simp
  qed
  show ?thesis using same untouched by (simp add: scan_and_clean_def)
qed

lemma length_forward_keys:
  assumes "distinct (slots w)" and "dom (data w) \<subseteq> set (slots w)"
  shows "length (forward_keys w) = card {k. data w k \<noteq> None \<and> glob ''custom_domain:*'' k}"
proof -
  have "set (forward_keys w) = {k. data w k \<noteq> None \<and> glob ''custom_domain:*'' k}"
    using assms(2) by (auto simp: forward_keys_def)
  moreover have "distinct (forward_keys w)" using assms(1) by (simp add: forward_keys_def)
  ultimately show ?thesis by (metis distinct_card)
qed

text \<open>
  C8, as the code has it. On a store whose table lists each of its keys once, for every
  positive page size the loop ends, when the cursor comes back as 0, and the number of keys
  seen is the number of keys of the store that match \<open>custom_domain:*\<close>, whatever the
  page size: in every dry run, and in a normal run when no forward entry's value begins
  with \<open>custom_domain:\<close>.
\<close>

theorem scan_sees_every_forward_key:
  assumes "0 < count" and "distinct (slots w)" and "dom (data w) \<subseteq> set (slots w)"
    and "dry_run e \<or> \<not> reverse_key_clash w"
  shows "\<exists>cleaned errors w'.
           scan_and_clean_paged e count w =
             Inr ((card {k. data w k \<noteq> None \<and> glob ''custom_domain:*'' k}, cleaned, errors), w')"
  using scan_and_clean_paged_snapshot [OF assms(1,2,4)] length_forward_keys [OF assms(2,3)]
  by (auto simp: total_tally_keys)

subsection \<open>A store where a reverse key is a forward key\<close>

text \<open>Runs over \<open>clash_store\<close>, followed step by step.\<close>

lemma summary_of_loop:
  "scan_loop e count 0 (\<lparr>total_domains = 0, cleaned_domains = 0, error_count = 0\<rparr>, w) = Inr (c, w') \<Longrightarrow>
   summary (scan_and_clean_paged e count w) = Inr (total_domains c, cleaned_domains c, error_count c)"
  by (simp add: scan_and_clean_paged_def summary_def)

lemma clash_data:
  "data clash_store ''custom_domain:a.test'' = Some ''custom_domain:b.test''"
  "data clash_store ''custom_domain:b.test'' = Some ''bob:siteB''"
  "slots clash_store = [''custom_domain:a.test'', ''custom_domain:b.test'']"
  by (simp_all add: clash_store_def store_of_def)

lemma clash_parse:
  "parse_repo_mapping ''custom_domain:b.test'' = Some (''custom_domain'', ''b.test'')"
  "parse_repo_mapping ''bob:siteB'' = Some (''bob'', ''siteB'')"
  by (simp_all add: parse_repo_mapping_def)

lemma clash_answers:
  "\<not> answers_exists (reaper dry clash_oracle) ''custom_domain'' ''b.test''"
  "answers_exists (reaper dry clash_oracle) ''bob'' ''siteB''"
  by (simp_all add: answers_exists_def pages_url_def reaper_fields clash_oracle_def missing_only_def)

lemma clash_first:
  "process_key (reaper dry clash_oracle) ''custom_domain:a.test''
     (\<lparr>total_domains = 0, cleaned_domains = 0, error_count = 0\<rparr>, clash_store) =
   (\<lparr>total_domains = 1, cleaned_domains = 1, error_count = 0\<rparr>,
    delete_domain_mappings (reaper dry clash_oracle) ''a.test''
      ''custom_domain'' ''b.test''
      (clash_store\<lparr>http_calls := http_calls clash_store @
         [pages_url (reaper dry clash_oracle) ''custom_domain'' ''b.test'']\<rparr>))"
  using process_key_parsed [OF clash_data(1) _ clash_parse(1), of "reaper dry clash_oracle"
      "\<lparr>total_domains = 0, cleaned_domains = 0, error_count = 0\<rparr>"] clash_answers(1) [of dry]
  by simp

lemma reverse_key_listed:
  "(username @ '':'' @ repository) \<in> set (keys_to_delete isalnum domain username repository)"
  by (simp add: keys_to_delete_def Let_def)

lemma clash_second_normal:
  "data (delete_domain_mappings (reaper False clash_oracle) d ''custom_domain'' ''b.test'' w)
     ''custom_domain:b.test'' = None"
  using reverse_key_listed [of "''custom_domain''" "''b.test''" ascii_isalnum d]
  by (simp add: delete_domain_mappings_data reaper_fields never_raises_def)

lemma clash_second_dry:
  "data (delete_domain_mappings (reaper True clash_oracle) d u r
          (clash_store\<lparr>http_calls := h\<rparr>)) ''custom_domain:b.test'' = Some ''bob:siteB''"
  by (simp add: delete_domain_mappings_data reaper_fields clash_data)

lemma clash_scan_100:
  "redis_scan clash_store 0 ''custom_domain:*'' 100 =
     Inr (0, [''custom_domain:a.test'', ''custom_domain:b.test''])"
  by (simp add: redis_scan_def Let_def clash_data)

lemma clash_scan_2:
  "redis_scan clash_store 0 ''custom_domain:*'' 2 =
     Inr (0, [''custom_domain:a.test'', ''custom_domain:b.test''])"
  by (simp add: redis_scan_def Let_def clash_data)

lemma clash_scan_1:
  "redis_scan clash_store 0 ''custom_domain:*'' 1 = Inr (1, [''custom_domain:a.test''])"
  by (simp add: redis_scan_def Let_def clash_data)

lemma clash_page_normal:
  "fst (for_keys (reaper False clash_oracle) [''custom_domain:a.test'', ''custom_domain:b.test'']
     (\<lparr>total_domains = 0, cleaned_domains = 0, error_count = 0\<rparr>, clash_store)) =
   \<lparr>total_domains = 2, cleaned_domains = 1, error_count = 1\<rparr>"
  by (simp add: clash_first fst_process_key clash_second_normal verdict_def tally_def)

lemma clash_page_dry:
  "fst (for_keys (reaper True clash_oracle) [''custom_domain:a.test'', ''custom_domain:b.test'']
     (\<lparr>total_domains = 0, cleaned_domains = 0, error_count = 0\<rparr>, clash_store)) =
   \<lparr>total_domains = 2, cleaned_domains = 1, error_count = 0\<rparr>"
  by (simp add: clash_first fst_process_key clash_second_dry verdict_def tally_def
      clash_parse clash_answers)

lemma summary_one_page:
  assumes "redis_scan w 0 ''custom_domain:*'' count = Inr (0, keys)"
    and "fst (for_keys e keys (\<lparr>total_domains = 0, cleaned_domains = 0, error_count = 0\<rparr>, w)) = c"
  shows "summary (scan_and_clean_paged e count w) =
           Inr (total_domains c, cleaned_domains c, error_count c)"
proof -
  let ?z = "\<lparr>total_domains = 0, cleaned_domains = 0, error_count = 0\<rparr>"
  have "scan_loop e count 0 (?z, w) = Inr (c, snd (for_keys e keys (?z, w)))"
    using scan_loop_step [OF assms(1), of e ?z] assms(2) by (simp add: prod_eq_iff)
  then show ?thesis by (rule summary_of_loop)
qed

text \<open>
  The dry run keeps the second mapping (2 seen, 1 cleaned, 0 errors); the normal run has
  deleted its forward key by the time it gets there (2 seen, 1 cleaned, 1 error).
\<close>

theorem dry_run_summary_differs:
  "summary (scan_and_clean (reaper True clash_oracle) clash_store) = Inr (2, 1, 0)
   \<and> summary (scan_and_clean (reaper False clash_oracle) clash_store) = Inr (2, 1, 1)"
  using summary_one_page [OF clash_scan_100 clash_page_dry]
    summary_one_page [OF clash_scan_100 clash_page_normal]
  by (simp add: scan_and_clean_def)

lemma clash_count: "length (forward_keys clash_store) = 2"
  by (simp add: forward_keys_def clash_data)

lemma clash_normal_1:
  "summary (scan_and_clean_paged (reaper False clash_oracle) 1 clash_store) = Inr (1, 1, 0)"
proof -
  let ?e = "reaper False clash_oracle"
  let ?z = "\<lparr>total_domains = 0, cleaned_domains = 0, error_count = 0\<rparr>"
  let ?w1 = "delete_domain_mappings ?e ''a.test'' ''custom_domain'' ''b.test''
      (clash_store\<lparr>http_calls := http_calls clash_store @
         [pages_url ?e ''custom_domain'' ''b.test'']\<rparr>)"
  let ?c1 = "\<lparr>total_domains = 1, cleaned_domains = 1, error_count = 0\<rparr>"
  have page1: "for_keys ?e [''custom_domain:a.test''] (?z, clash_store) = (?c1, ?w1)"
    by (simp add: clash_first)
  have sl: "slots ?w1 = slots clash_store"
    using slots_for_keys [of ?e "[''custom_domain:a.test'']" "(?z, clash_store)"] page1 by simp
  have gone: "data ?w1 ''custom_domain:b.test'' = None" by (rule clash_second_normal)
  have scan2: "redis_scan ?w1 1 ''custom_domain:*'' 1 = Inr (0, [])"
    by (simp add: redis_scan_def Let_def sl clash_data gone)
  have "scan_loop ?e 1 1 (?c1, ?w1) = Inr (?c1, ?w1)"
    using scan_loop_step [OF scan2, of ?e ?c1] by simp
  then have "scan_loop ?e 1 0 (?z, clash_store) = Inr (?c1, ?w1)"
    using scan_loop_step [OF clash_scan_1, of ?e ?z] page1 by simp
  from summary_of_loop [OF this] show ?thesis by simp
qed

text \<open>
  The store holds 2 forward keys. With page size 1 the normal run sees 1, with page size 2
  it sees 2.
\<close>

theorem page_size_changes_seen:
  "length (forward_keys clash_store) = 2
   \<and> summary (scan_and_clean_paged (reaper False clash_oracle) 1 clash_store) = Inr (1, 1, 0)
   \<and> summary (scan_and_clean_paged (reaper False clash_oracle) 2 clash_store) = Inr (2, 1, 1)"
  using clash_count clash_normal_1 summary_one_page [OF clash_scan_2 clash_page_normal]
  by simp

subsection \<open>Stores without such a key\<close>

lemma two_sites_data:
  "data two_sites ''custom_domain:a.test'' = Some ''bob:siteA''"
  "data two_sites ''custom_domain:b.test'' = Some ''carol:siteB''"
  "slots two_sites = [''custom_domain:a.test'', ''custom_domain:b.test'']"
  "dom (data two_sites) = {''custom_domain:a.test'', ''custom_domain:b.test''}"
  by (auto simp: two_sites_def store_of_def)

lemma two_sites_no_clash: "\<not> reverse_key_clash two_sites"
  by (simp add: reverse_key_clash_def forward_keys_def two_sites_data)

lemma two_sites_count: "length (forward_keys two_sites) = 2"
  by (simp add: forward_keys_def two_sites_data)

theorem scan_sees_every_forward_key_witness:
  "0 < (1::nat) \<and> distinct (slots two_sites) \<and> dom (data two_sites) \<subseteq> set (slots two_sites)
   \<and> \<not> reverse_key_clash two_sites
   \<and> (\<exists>cleaned errors w'.
         scan_and_clean_paged (reaper False (always (Response 404))) 1 two_sites =
           Inr ((2, cleaned, errors), w'))"
proof -
  have d: "distinct (slots two_sites)" by (simp add: two_sites_data)
  have s: "dom (data two_sites) \<subseteq> set (slots two_sites)" by (simp add: two_sites_data)
  have n: "dry_run (reaper False (always (Response 404))) \<or> \<not> reverse_key_clash two_sites"
    using two_sites_no_clash by simp
  have p: "0 < (1::nat)" by simp
  have "card {k. data two_sites k \<noteq> None \<and> glob ''custom_domain:*'' k} = 2"
    using length_forward_keys [OF d s] two_sites_count by simp
  then show ?thesis using scan_sees_every_forward_key [OF p d s n] d s two_sites_no_clash by simp
qed

lemma scenario2_data:
  "data (store_of [(''custom_domain:b.test'', ''carol:siteB'')]) ''custom_domain:b.test'' = Some ''carol:siteB''"
  "slots (store_of [(''custom_domain:b.test'', ''carol:siteB'')]) = [''custom_domain:b.test'']"
  by (simp_all add: store_of_def)

lemma scenario2_no_clash:
  "\<not> reverse_key_clash (store_of [(''custom_domain:b.test'', ''carol:siteB'')])"
  by (simp add: reverse_key_clash_def forward_keys_def scenario2_data)

lemma reaper_dry_run: "(reaper dry http)\<lparr>dry_run := b\<rparr> = reaper b http"
  by (simp add: reaper_def CacheReaper_def)

lemma scenario2_dry:
  "process_key (reaper True (always (Response 404))) ''custom_domain:b.test''
     (\<lparr>total_domains = 0, cleaned_domains = 0, error_count = 0\<rparr>,
      store_of [(''custom_domain:b.test'', ''carol:siteB'')]) =
   (\<lparr>total_domains = 1, cleaned_domains = 1, error_count = 0\<rparr>,
    (store_of [(''custom_domain:b.test'', ''carol:siteB'')])
      \<lparr>http_calls := [''http://forgejo/api/v1/repos/carol/siteB/contents/.pages'']\<rparr>)"
proof -
  have p: "parse_repo_mapping ''carol:siteB'' = Some (''carol'', ''siteB'')"
    by (simp add: parse_repo_mapping_def)
  have a: "\<not> answers_exists (reaper True (always (Response 404))) ''carol'' ''siteB''"
    by (simp add: answers_exists_def reaper_fields always_def)
  show ?thesis
    using process_key_parsed [OF scenario2_data(1) _ p, of "reaper True (always (Response 404))"
        "\<lparr>total_domains = 0, cleaned_domains = 0, error_count = 0\<rparr>"] a
    by (simp add: delete_domain_mappings_def reaper_fields pages_url_def store_of_def)
qed

theorem dry_run_same_summary_witness:
  "distinct (slots (store_of [(''custom_domain:b.test'', ''carol:siteB'')]))
   \<and> \<not> reverse_key_clash (store_of [(''custom_domain:b.test'', ''carol:siteB'')])
   \<and> summary (scan_and_clean (reaper True (always (Response 404)))
        (store_of [(''custom_domain:b.test'', ''carol:siteB'')])) = Inr (1, 1, 0)
   \<and> summary (scan_and_clean (reaper False (always (Response 404)))
        (store_of [(''custom_domain:b.test'', ''carol:siteB'')])) = Inr (1, 1, 0)
   \<and> final_world (scan_and_clean_paged (reaper True (always (Response 404))) 100
        (store_of [(''custom_domain:b.test'', ''carol:siteB'')])) =
      Some ((store_of [(''custom_domain:b.test'', ''carol:siteB'')])
        \<lparr>http_calls := [''http://forgejo/api/v1/repos/carol/siteB/contents/.pages'']\<rparr>)
   \<and> delete_calls ((store_of [(''custom_domain:b.test'', ''carol:siteB'')])
        \<lparr>http_calls := [''http://forgejo/api/v1/repos/carol/siteB/contents/.pages'']\<rparr>) = []"
proof -
  let ?w = "store_of [(''custom_domain:b.test'', ''carol:siteB'')]"
  let ?w' = "?w\<lparr>http_calls := [''http://forgejo/api/v1/repos/carol/siteB/contents/.pages'']\<rparr>"
  let ?e = "reaper False (always (Response 404))"
  have d: "distinct (slots ?w)" by (simp add: scenario2_data)
  have g: "glob ''custom_domain:*'' ''custom_domain:b.test''" by simp
  have run: "scan_and_clean (reaper True (always (Response 404))) ?w = Inr ((1, 1, 0), ?w')"
    using run_single [OF g scenario2_dry] by simp
  then have dry: "summary (scan_and_clean (?e\<lparr>dry_run := True\<rparr>) ?w) = Inr (1, 1, 0)"
    and fin: "final_world (scan_and_clean_paged (?e\<lparr>dry_run := True\<rparr>) 100 ?w) = Some ?w'"
    by (simp_all add: reaper_dry_run summary_def final_world_def scan_and_clean_def)
  from dry_run_same_summary [of ?w ?e 100 ?w'] d scenario2_no_clash dry fin
  show ?thesis by (simp add: reaper_dry_run store_of_def)
qed

end
